theory Spec2Isabelle
  imports Complex_Main "HOL-Library.Word"
begin

section \<open>lagproxy: a latency-injecting TCP relay\<close>

text \<open>
  The source is one Python module, \<^verbatim>\<open>lagproxy.py\<close>. Python floats (delays, clock
  readings) are modelled as \<^typ>\<open>real\<close>: rounding, infinities and NaN are outside the
  model. A byte string is a list of 8-bit words. Everything the environment decides
  (what \<^verbatim>\<open>recv\<close> returns, what \<^verbatim>\<open>send\<close> accepts, what the clock and the random
  generator read, which thread runs next) is an explicit argument.
\<close>

type_synonym byte = "8 word"

subsection \<open>Delay\<close>

text \<open>
  \<^verbatim>\<open>
  class Delay(object):
      def __init__(self, minseconds, maxseconds=None):
          self.minseconds = minseconds
          if not maxseconds or maxseconds < minseconds:
              maxseconds = minseconds
          self.maxseconds = maxseconds
      def getrandom(self):
          return random.uniform(self.minseconds, self.maxseconds)
  \<close>
  \<^verbatim>\<open>not maxseconds\<close> holds for \<^verbatim>\<open>None\<close> and for \<^verbatim>\<open>0.0\<close>.
\<close>

record Delay =
  minseconds :: real
  maxseconds :: real

fun py_not :: "real option \<Rightarrow> bool" where
  "py_not None = True"
| "py_not (Some x) = (x = 0)"

fun Delay_init :: "real \<Rightarrow> real option \<Rightarrow> Delay" where
  "Delay_init mn None = \<lparr>minseconds = mn, maxseconds = mn\<rparr>"
| "Delay_init mn (Some mx) =
     (if py_not (Some mx) \<or> mx < mn
      then \<lparr>minseconds = mn, maxseconds = mn\<rparr>
      else \<lparr>minseconds = mn, maxseconds = mx\<rparr>)"

text \<open>
  \<^verbatim>\<open>random.uniform(a, b)\<close> is \<^verbatim>\<open>a + (b-a) * self.random()\<close> in the standard library;
  the draw \<open>u\<close> of \<^verbatim>\<open>random()\<close> lies in \<open>[0, 1)\<close>.
\<close>

definition uniform :: "real \<Rightarrow> real \<Rightarrow> real \<Rightarrow> real" where
  "uniform a b u = a + (b - a) * u"

definition getrandom :: "Delay \<Rightarrow> real \<Rightarrow> real" where
  "getrandom d u = uniform (minseconds d) (maxseconds d) u"

subsection \<open>BackloggedData\<close>

text \<open>
  \<^verbatim>\<open>
  class BackloggedData(object):
      def __init__(self, payload, delay):
          if delay:
              self.waituntil = time.time() + delay.getrandom()
          else:
              self.waituntil = time.time()
          self.payload = payload
  \<close>
  A \<^verbatim>\<open>Delay\<close> object defines neither \<^verbatim>\<open>__bool__\<close> nor \<^verbatim>\<open>__len__\<close>, so
  \<^verbatim>\<open>if delay\<close> is false for \<^verbatim>\<open>None\<close> only. \<open>now\<close> is the reading of \<^verbatim>\<open>time.time()\<close>.
\<close>

record BackloggedData =
  waituntil :: real
  payload :: "byte list"

fun BackloggedData_init :: "byte list \<Rightarrow> Delay option \<Rightarrow> real \<Rightarrow> real \<Rightarrow> BackloggedData" where
  "BackloggedData_init bs (Some d) now u = \<lparr>waituntil = now + getrandom d u, payload = bs\<rparr>"
| "BackloggedData_init bs None now u = \<lparr>waituntil = now, payload = bs\<rparr>"

subsection \<open>PipeThread and PipeCleanerThread\<close>

text \<open>
  One Pipe is a \<^verbatim>\<open>PipeThread\<close> (the Reader) and its \<^verbatim>\<open>PipeCleanerThread\<close> (the Sender),
  sharing the \<^verbatim>\<open>queue.Queue\<close> \<^verbatim>\<open>backlog\<close>:
  \<^verbatim>\<open>
  class PipeCleanerThread(threading.Thread):
      def run(self):
          while True:
              data = self.pipe.backlog.get(block=True)
              time.sleep(max(0, data.waituntil - time.time()))
              self.pipe.sink.send(data.payload)
              self.pipe.backlog.task_done()

  class PipeThread(threading.Thread):
      pipes = []
      def __init__(self, source, sink, delay):
          ...
          self.delay = delay
          self.backlog = queue.Queue()
          self.cleanerthread = PipeCleanerThread(self)
          PipeThread.pipes.append(self)
      def run(self):
          self.cleanerthread.start()
          while True:
              try:
                  bytes = self.source.recv(1024)
                  if not bytes:
                      break
                  self.backlog.put(BackloggedData(bytes, self.delay), block=True)
              except:
                  break
          self.backlog.join()
          PipeThread.pipes.remove(self)
  \<close>
  The two threads interleave at the queue operations, which \<^verbatim>\<open>queue.Queue\<close> makes
  atomic. The model is a state machine: an event is one step of one of the two threads
  together with what the environment supplies to it, and a run is a list of events. An
  event whose thread is blocked or gone leaves the state unchanged.
\<close>

datatype recv_result = RecvBytes "byte list" | RecvError

text \<open>
  \<^verbatim>\<open>socket.send\<close> returns the number of bytes the socket accepted, which can be less
  than the length of the payload, or raises; the source ignores the returned count.
\<close>

datatype send_result = SendCount nat | SendError

datatype reader_phase = Reading | Joining | Finished | ReaderCrashed

text \<open>
  \<open>Sleeping data wake\<close>: the Sender holds \<open>data\<close> and has asked \<^verbatim>\<open>time.sleep\<close> for
  \<open>max(0, waituntil - now)\<close> seconds; the call either returns, no earlier than \<open>wake\<close>,
  or raises (CPython raises OverflowError for a request it cannot represent as a
  timestamp, a little above \<open>9.2e9\<close> seconds, as with a Delay of \<open>1e10\<close>). \<open>Dead\<close>: an
  exception left \<^verbatim>\<open>run\<close>, which has no handler, and the Sender thread is gone.
\<close>

datatype cleaner_phase = Waiting | Sleeping BackloggedData real | Dead

text \<open>
  The fields up to \<open>pipes\<close> are the program's state (\<open>unfinished_tasks\<close> is the counter
  of \<^verbatim>\<open>queue.Queue\<close> that \<^verbatim>\<open>join\<close> waits on, \<open>pipes\<close> the class attribute
  \<^verbatim>\<open>PipeThread.pipes\<close> holding thread identities). \<open>sink_received\<close> is what the sink
  socket has accepted. The last four fields are history only: the bytes \<^verbatim>\<open>recv\<close> has
  returned, the entries put on the queue with the clock reading of their constructor,
  the entries \<^verbatim>\<open>get\<close> has returned, and the entries whose \<^verbatim>\<open>send\<close> has returned with
  the time of that call.
\<close>

record pipe_state =
  delay :: "Delay option"
  self_id :: nat
  backlog :: "BackloggedData list"
  unfinished_tasks :: nat
  reader :: reader_phase
  cleaner :: cleaner_phase
  pipes :: "nat list"
  sink_received :: "byte list"
  source_bytes :: "byte list"
  enqueued :: "(real \<times> BackloggedData) list"
  dequeued :: "BackloggedData list"
  delivered :: "(real \<times> BackloggedData) list"

definition PipeThread_init :: "nat \<Rightarrow> Delay option \<Rightarrow> nat list \<Rightarrow> pipe_state" where
  "PipeThread_init i dl ps =
     \<lparr>delay = dl, self_id = i, backlog = [], unfinished_tasks = 0, reader = Reading,
      cleaner = Waiting, pipes = ps @ [i], sink_received = [], source_bytes = [],
      enqueued = [], dequeued = [], delivered = []\<rparr>"

text \<open>One turn of the Reader's loop: \<^verbatim>\<open>recv\<close>, the emptiness test, the \<^verbatim>\<open>put\<close>.\<close>

fun reader_recv :: "recv_result \<Rightarrow> real \<Rightarrow> real \<Rightarrow> pipe_state \<Rightarrow> pipe_state" where
  "reader_recv RecvError now u s = s\<lparr>reader := Joining\<rparr>"
| "reader_recv (RecvBytes bs) now u s =
     (if bs = [] then s\<lparr>reader := Joining\<rparr>
      else s\<lparr>backlog := backlog s @ [BackloggedData_init bs (delay s) now u],
             unfinished_tasks := unfinished_tasks s + 1,
             source_bytes := source_bytes s @ bs,
             enqueued := enqueued s @ [(now, BackloggedData_init bs (delay s) now u)]\<rparr>)"

text \<open>
  \<^verbatim>\<open>backlog.join()\<close> returns once \<open>unfinished_tasks\<close> is zero; then
  \<^verbatim>\<open>pipes.remove(self)\<close>, which raises ValueError when \<^verbatim>\<open>self\<close> is not in the list.
\<close>

definition reader_join :: "pipe_state \<Rightarrow> pipe_state" where
  "reader_join s =
     (if unfinished_tasks s = 0
      then (if self_id s \<in> set (pipes s)
            then s\<lparr>pipes := remove1 (self_id s) (pipes s), reader := Finished\<rparr>
            else s\<lparr>reader := ReaderCrashed\<rparr>)
      else s)"

text \<open>
  \<^verbatim>\<open>backlog.get(block=True)\<close> takes the head of the queue when there is one; the
  Sender then reads the clock (\<open>now\<close>) and asks to sleep \<open>max(0, waituntil - now)\<close>.
\<close>

definition sleep_seconds :: "BackloggedData \<Rightarrow> real \<Rightarrow> real" where
  "sleep_seconds d now = max 0 (waituntil d - now)"

fun cleaner_get :: "real \<Rightarrow> pipe_state \<Rightarrow> pipe_state" where
  "cleaner_get now s =
     (case backlog s of
        [] \<Rightarrow> s
      | d # q \<Rightarrow> s\<lparr>backlog := q, dequeued := dequeued s @ [d],
                    cleaner := Sleeping d (now + sleep_seconds d now)\<rparr>)"

text \<open>
  After the sleep, at time \<open>t\<close>: \<^verbatim>\<open>sink.send(data.payload)\<close>, then
  \<^verbatim>\<open>backlog.task_done()\<close>, which raises ValueError when the counter is already zero.
\<close>

fun cleaner_send :: "send_result \<Rightarrow> real \<Rightarrow> BackloggedData \<Rightarrow> pipe_state \<Rightarrow> pipe_state" where
  "cleaner_send SendError t d s = s\<lparr>cleaner := Dead\<rparr>"
| "cleaner_send (SendCount n) t d s =
     (let s' = s\<lparr>sink_received := sink_received s @ take n (payload d),
                  delivered := delivered s @ [(t, d)]\<rparr>
      in if unfinished_tasks s = 0 then s'\<lparr>cleaner := Dead\<rparr>
         else s'\<lparr>unfinished_tasks := unfinished_tasks s - 1, cleaner := Waiting\<rparr>)"

text \<open>
  \<open>CleanerSleepError\<close> is the \<^verbatim>\<open>time.sleep\<close> call raising instead of returning;
  \<open>CleanerSend r t\<close> is the call returning and the \<^verbatim>\<open>send\<close> made at time \<open>t\<close>.
\<close>

datatype event =
    ReaderRecv recv_result real real
  | ReaderJoin
  | CleanerGet real
  | CleanerSleepError
  | CleanerSend send_result real

fun step :: "event \<Rightarrow> pipe_state \<Rightarrow> pipe_state" where
  "step (ReaderRecv r now u) s = (if reader s = Reading then reader_recv r now u s else s)"
| "step ReaderJoin s = (if reader s = Joining then reader_join s else s)"
| "step (CleanerGet now) s = (if cleaner s = Waiting then cleaner_get now s else s)"
| "step CleanerSleepError s =
     (case cleaner s of
        Sleeping d wake \<Rightarrow> s\<lparr>cleaner := Dead\<rparr>
      | _ \<Rightarrow> s)"
| "step (CleanerSend r t) s =
     (case cleaner s of
        Sleeping d wake \<Rightarrow> (if t < wake then s else cleaner_send r t d s)
      | _ \<Rightarrow> s)"

fun exec :: "event list \<Rightarrow> pipe_state \<Rightarrow> pipe_state" where
  "exec [] s = s"
| "exec (e # es) s = exec es (step e s)"

text \<open>The entry the Sender holds between \<^verbatim>\<open>get\<close> and \<^verbatim>\<open>send\<close>.\<close>

fun in_flight :: "cleaner_phase \<Rightarrow> BackloggedData list" where
  "in_flight (Sleeping d wake) = [d]"
| "in_flight _ = []"

text \<open>The events at which the Reader's loop ends: an empty read or a failed read.\<close>

fun stops_reader :: "event \<Rightarrow> bool" where
  "stops_reader (ReaderRecv RecvError now u) = True"
| "stops_reader (ReaderRecv (RecvBytes bs) now u) = (bs = [])"
| "stops_reader _ = False"

text \<open>
  A run in which no \<^verbatim>\<open>time.sleep\<close> call of the Sender raises and every \<^verbatim>\<open>send\<close>
  that is made returns, having accepted its whole payload.
\<close>

fun sender_survives :: "event \<Rightarrow> pipe_state \<Rightarrow> bool" where
  "sender_survives CleanerSleepError s = False"
| "sender_survives (CleanerSend SendError t) s = False"
| "sender_survives (CleanerSend (SendCount n) t) s =
     (case cleaner s of Sleeping d wake \<Rightarrow> length (payload d) \<le> n | _ \<Rightarrow> True)"
| "sender_survives _ s = True"

fun sender_survives_run :: "event list \<Rightarrow> pipe_state \<Rightarrow> bool" where
  "sender_survives_run [] s = True"
| "sender_survives_run (e # es) s =
     (sender_survives e s \<and> sender_survives_run es (step e s))"

text \<open>The invariant of a Pipe that the proofs below carry through every run.\<close>

fun cleaner_inv :: "cleaner_phase \<Rightarrow> BackloggedData list \<Rightarrow> BackloggedData list \<Rightarrow> bool" where
  "cleaner_inv Waiting deq del = (deq = del)"
| "cleaner_inv (Sleeping d wake) deq del = (deq = del @ [d] \<and> waituntil d \<le> wake)"
| "cleaner_inv Dead deq del = (del = take (length del) deq)"

definition pipe_inv :: "pipe_state \<Rightarrow> bool" where
  "pipe_inv s \<longleftrightarrow>
     dequeued s @ backlog s = map snd (enqueued s)
   \<and> cleaner_inv (cleaner s) (dequeued s) (map snd (delivered s))
   \<and> unfinished_tasks s + length (delivered s) = length (enqueued s)
   \<and> list_all (\<lambda>(t, d). waituntil d \<le> t) (delivered s)
   \<and> list_all (\<lambda>(t, d). payload d \<noteq> []) (enqueued s)
   \<and> source_bytes s = concat (map (\<lambda>(t, d). payload d) (enqueued s))
   \<and> (reader s = Finished \<longrightarrow> unfinished_tasks s = 0)"

text \<open>
  What a Pipe relays: the Sender is alive, the bytes the sink has accepted followed by
  the payloads held and queued are the bytes read, and the bytes accepted are the
  payloads of the entries sent.
\<close>

definition relay_inv :: "pipe_state \<Rightarrow> bool" where
  "relay_inv s \<longleftrightarrow>
     cleaner s \<noteq> Dead
   \<and> sink_received s @ concat (map payload (in_flight (cleaner s) @ backlog s)) = source_bytes s
   \<and> concat (map (\<lambda>(t, d). payload d) (delivered s)) = sink_received s"

subsection \<open>LagProxy.run\<close>

text \<open>
  \<^verbatim>\<open>
  def run(self):
      while True:
          localsock, address = self.sock.accept()
          log('Creating new session for %s %s' % address)
          remotesock = socket.socket(socket.AF_INET, socket.SOCK_STREAM)
          remotesock.connect((self.remotehost, self.remoteport))
          PipeThread(localsock, remotesock, self.delay).start()
          PipeThread(remotesock, localsock, self.delay).start()
  \<close>
  Sockets are numbers. Nothing in \<^verbatim>\<open>run\<close>, nor in \<^verbatim>\<open>main\<close> around it, catches an
  exception, so every statement of the loop that can raise ends the loop. The
  environment supplies, for each turn of the loop, how far it gets:
  \<^item> \<open>AcceptError\<close>: \<^verbatim>\<open>accept\<close> raises;
  \<^item> \<open>Accepted l ConnectError\<close>: \<^verbatim>\<open>accept\<close> returns the socket \<open>l\<close> and then
    \<^verbatim>\<open>connect\<close> raises (for the state, an exception of \<^verbatim>\<open>log\<close> or of
    \<^verbatim>\<open>socket.socket\<close> before it is the same);
  \<^item> \<open>PipeError l r FirstPipe\<close>: \<^verbatim>\<open>connect\<close> returns with the remote socket \<open>r\<close>, and
    the first \<^verbatim>\<open>PipeThread(...).start()\<close> raises, in the constructor (its \<^verbatim>\<open>log\<close> call
    asks both sockets for \<^verbatim>\<open>getpeername()\<close>) or in \<^verbatim>\<open>start\<close>;
  \<^item> \<open>PipeError l r SecondPipe\<close>: the first PipeThread is started and the second
    \<^verbatim>\<open>PipeThread(...).start()\<close> raises;
  \<^item> \<open>Accepted l (Connected r)\<close>: both PipeThreads are started.

  The state records the sockets \<^verbatim>\<open>accept\<close> has returned and the (source, sink) of
  every \<^verbatim>\<open>PipeThread\<close> that was started; it does not say that such a thread still runs.
\<close>

datatype connect_result = Connected nat | ConnectError

datatype pipe_failure = FirstPipe | SecondPipe

datatype accept_event =
    Accepted nat connect_result
  | AcceptError
  | PipeError nat nat pipe_failure

record proxy_state =
  sessions :: "nat list"
  started :: "(nat \<times> nat) list"

text \<open>
  \<open>AwaitingAccept\<close>: every connection that arrived has been served and the loop is
  blocked in \<^verbatim>\<open>accept\<close>. \<open>Raised\<close>: an exception has left \<^verbatim>\<open>run\<close>, and the loop with it.
\<close>

datatype run_outcome = AwaitingAccept | Raised

fun LagProxy_run :: "accept_event list \<Rightarrow> proxy_state \<Rightarrow> run_outcome \<times> proxy_state" where
  "LagProxy_run [] st = (AwaitingAccept, st)"
| "LagProxy_run (AcceptError # evs) st = (Raised, st)"
| "LagProxy_run (Accepted l ConnectError # evs) st =
     (Raised, st\<lparr>sessions := sessions st @ [l]\<rparr>)"
| "LagProxy_run (PipeError l r FirstPipe # evs) st =
     (Raised, st\<lparr>sessions := sessions st @ [l]\<rparr>)"
| "LagProxy_run (PipeError l r SecondPipe # evs) st =
     (Raised, st\<lparr>sessions := sessions st @ [l], started := started st @ [(l, r)]\<rparr>)"
| "LagProxy_run (Accepted l (Connected r) # evs) st =
     LagProxy_run evs
       (st\<lparr>sessions := sessions st @ [l], started := started st @ [(l, r), (r, l)]\<rparr>)"

text \<open>The turns of the loop that reach its end: both PipeThreads of the pair started.\<close>

fun serves_pair :: "accept_event \<Rightarrow> bool" where
  "serves_pair (Accepted l (Connected r)) = True"
| "serves_pair _ = False"

text \<open>
  \<^verbatim>\<open>main\<close> calls \<^verbatim>\<open>proxy.run()\<close> as its last statement, and both thread classes set
  \<^verbatim>\<open>daemon = True\<close>. An exception that leaves \<^verbatim>\<open>run\<close> therefore ends the main thread,
  and the interpreter exits without waiting for the daemon threads: every PipeThread
  and PipeCleanerThread stops. \<open>can_run\<close> gives the PipeThreads that may still be
  running after the events served.
\<close>

fun can_run :: "run_outcome \<times> proxy_state \<Rightarrow> (nat \<times> nat) list" where
  "can_run (AwaitingAccept, st) = started st"
| "can_run (Raised, st) = []"

subsection \<open>log and main\<close>

text \<open>
  \<^verbatim>\<open>
  LOGGING = True
  def log(s):
      if LOGGING:
          print('%s:%s' % (time.ctime(), s))
          sys.stdout.flush()

  def main():
      try:
          args = sys.argv[1:]
          while '-q' in args:
              LOGGING = False
              args.remove('-q')
          localport = int(args[0])
          remotehost = args[1]
          remoteport = int(args[2])
          delay = None
          if len(args) > 3:
              delaymin, delaymax = float(args[3]), None
              if len(args) > 4:
                  delaymax = float(args[4])
              delay = Delay(delaymin, delaymax)
      except:
          usage()
          return
      proxy = LagProxy(localport, remotehost, remoteport, delay)
      proxy.run()
  \<close>
  \<^verbatim>\<open>main\<close> assigns \<^verbatim>\<open>LOGGING\<close> and has no \<^verbatim>\<open>global LOGGING\<close>, so in Python the name
  is a local variable of \<^verbatim>\<open>main\<close>; \<^verbatim>\<open>log\<close> reads the module's variable. The module's
  variables are the record \<open>globals\<close>; the local one is threaded through the loop,
  \<open>None\<close> while unassigned.
\<close>

record globals =
  LOGGING :: bool
  stdout :: "string list"

definition module_init :: globals where
  "module_init = \<lparr>LOGGING = True, stdout = []\<rparr>"

text \<open>\<open>ct\<close> is the string \<^verbatim>\<open>time.ctime()\<close> returns.\<close>

definition log_out :: "string \<Rightarrow> string \<Rightarrow> globals \<Rightarrow> globals" where
  "log_out ct s g = (if LOGGING g then g\<lparr>stdout := stdout g @ [ct @ '':'' @ s]\<rparr> else g)"

definition usage :: "string \<Rightarrow> globals \<Rightarrow> globals" where
  "usage cmd g = g\<lparr>stdout := stdout g @
     [''Usage: '' @ cmd @ '' localport remotehost remoteport [delaymin [delaymax]]'',
      ''Example: '' @ cmd @ '' 8080 www.yahoo.com 80 0.6 1.4'',
      ''         Browsing http://localhost:8080 will then simulate a very laggy'',
      ''         connection (600-1400ms latency) to www.yahoo.com.'']\<rparr>"

text \<open>The \<^verbatim>\<open>while '-q' in args\<close> loop, on the local \<^verbatim>\<open>LOGGING\<close> and \<^verbatim>\<open>args\<close>.\<close>

function strip_q :: "bool option \<Rightarrow> string list \<Rightarrow> bool option \<times> string list" where
  "strip_q loc args =
     (if ''-q'' \<in> set args then strip_q (Some False) (remove1 ''-q'' args) else (loc, args))"
  by pat_completeness auto
termination
  by (relation "measure (\<lambda>(loc, args). length args)")
    (auto simp: length_remove1 dest: length_pos_if_in_set)

declare strip_q.simps [simp del]

text \<open>
  The rest of the \<^verbatim>\<open>try\<close> block. \<open>pint\<close> and \<open>pfloat\<close> stand for the built-in
  \<^verbatim>\<open>int\<close> and \<^verbatim>\<open>float\<close> on a string, \<open>None\<close> where they raise ValueError; an index out
  of range raises IndexError. Any exception gives \<open>None\<close>.
\<close>

definition main_parse ::
  "(string \<Rightarrow> int option) \<Rightarrow> (string \<Rightarrow> real option) \<Rightarrow> string list
     \<Rightarrow> (int \<times> string \<times> int \<times> Delay option) option" where
  "main_parse pint pfloat args =
     (if length args < 3 then None
      else case pint (args ! 0) of None \<Rightarrow> None | Some localport \<Rightarrow>
           (case pint (args ! 2) of None \<Rightarrow> None | Some remoteport \<Rightarrow>
             (if length args > 3
              then (case pfloat (args ! 3) of None \<Rightarrow> None | Some delaymin \<Rightarrow>
                     (if length args > 4
                      then (case pfloat (args ! 4) of None \<Rightarrow> None | Some delaymax \<Rightarrow>
                             Some (localport, args ! 1, remoteport,
                                   Some (Delay_init delaymin (Some delaymax))))
                      else Some (localport, args ! 1, remoteport,
                                 Some (Delay_init delaymin None))))
              else Some (localport, args ! 1, remoteport, None))))"

text \<open>
  \<^verbatim>\<open>main\<close> up to the first statement of \<^verbatim>\<open>LagProxy.__init__\<close>, which is
  \<^verbatim>\<open>log('Redirecting: localhost:%s -> %s:%s with %s' % ...)\<close>; \<open>fmt\<close> stands for that
  string formatting, \<open>cmd\<close> for the program's name.
\<close>

definition main_startup ::
  "(string \<Rightarrow> int option) \<Rightarrow> (string \<Rightarrow> real option) \<Rightarrow> string
     \<Rightarrow> (int \<times> string \<times> int \<times> Delay option \<Rightarrow> string) \<Rightarrow> string \<Rightarrow> string list
     \<Rightarrow> globals \<Rightarrow> globals" where
  "main_startup pint pfloat ct fmt cmd argv g =
     (case main_parse pint pfloat (snd (strip_q None argv)) of
        None \<Rightarrow> usage cmd g
      | Some cfg \<Rightarrow> log_out ct (fmt cfg) g)"

section \<open>Properties of Delay and BackloggedData\<close>

lemma Delay_init_min: "minseconds (Delay_init mn mxo) = mn"
  by (cases mxo) simp_all

lemma Delay_init_ordered: "minseconds (Delay_init mn mxo) \<le> maxseconds (Delay_init mn mxo)"
  by (cases mxo) simp_all

lemma uniform_lower: "a \<le> b \<Longrightarrow> 0 \<le> u \<Longrightarrow> a \<le> uniform a b u"
  by (simp add: uniform_def)

lemma uniform_upper: "a \<le> b \<Longrightarrow> u \<le> 1 \<Longrightarrow> uniform a b u \<le> b"
proof -
  assume ab: "a \<le> b" and u: "u \<le> 1"
  have "(b - a) * u \<le> (b - a) * 1"
    using ab u by (intro mult_left_mono) simp_all
  then show ?thesis by (simp add: uniform_def)
qed

lemma uniform_same: "uniform a a u = a"
  by (simp add: uniform_def)

text \<open>
  Claim C5. The \<^verbatim>\<open>waituntil\<close> of an entry is the clock reading taken in its
  constructor plus one draw of \<^verbatim>\<open>getrandom\<close> when a Delay is configured, and exactly
  the clock reading when the delay is \<^verbatim>\<open>None\<close>; the payload is stored as given.
\<close>

theorem BackloggedData_waituntil:
  "waituntil (BackloggedData_init bs (Some d) now u) = now + getrandom d u
   \<and> waituntil (BackloggedData_init bs None now u) = now
   \<and> payload (BackloggedData_init bs dl now u) = bs"
  by (cases dl) simp_all

text \<open>
  Claim C7. A Delay built from a minimum alone always returns that minimum; a Delay
  built from \<open>mn \<le> mx\<close> returns values in \<open>[mn, mx]\<close>; after construction
  \<open>minseconds \<le> maxseconds\<close>, and an unset or inverted maximum collapses to the minimum.
\<close>

theorem Delay_getrandom_range:
  assumes "0 \<le> u" and "u < 1"
  shows "getrandom (Delay_init mn None) u = mn
    \<and> (mn \<le> mx \<longrightarrow> mn \<le> getrandom (Delay_init mn (Some mx)) u
                  \<and> getrandom (Delay_init mn (Some mx)) u \<le> mx)
    \<and> minseconds (Delay_init mn mxo) \<le> maxseconds (Delay_init mn mxo)
    \<and> (mx < mn \<longrightarrow> maxseconds (Delay_init mn (Some mx)) = mn)
    \<and> maxseconds (Delay_init mn None) = mn"
proof -
  have only_min: "getrandom (Delay_init mn None) u = mn"
    by (simp add: getrandom_def uniform_same)
  have range: "mn \<le> getrandom (Delay_init mn (Some mx)) u
      \<and> getrandom (Delay_init mn (Some mx)) u \<le> mx" if le: "mn \<le> mx"
  proof (cases "mx = 0")
    case True
    then show ?thesis using le by (simp add: getrandom_def uniform_same)
  next
    case False
    then have d: "Delay_init mn (Some mx) = \<lparr>minseconds = mn, maxseconds = mx\<rparr>"
      using le by simp
    show ?thesis
      unfolding d getrandom_def
      using le assms uniform_lower [of mn mx u] uniform_upper [of mn mx u]
      by simp
  qed
  show ?thesis
    using only_min range Delay_init_ordered [of mn mxo] by simp
qed

theorem Delay_getrandom_range_witness:
  "(0::real) \<le> 1/2 \<and> (1/2::real) < 1
   \<and> getrandom (Delay_init (6/10) None) (1/2) = 6/10
   \<and> 6/10 \<le> getrandom (Delay_init (6/10) (Some (14/10))) (1/2)
   \<and> getrandom (Delay_init (6/10) (Some (14/10))) (1/2) \<le> 14/10
   \<and> maxseconds (Delay_init 2 (Some 1)) = 2"
  using Delay_getrandom_range [of "1/2" "6/10" "14/10" None]
    Delay_getrandom_range [of "1/2" 2 1 None]
  by simp

text \<open>
  Claim C8, as amended. The constructor orders the bounds but keeps their sign: a draw
  is non-negative whenever the minimum is. With a negative minimum and no maximum the
  draw is that negative minimum.
\<close>

theorem getrandom_nonneg:
  assumes "0 \<le> mn" and "0 \<le> u" and "u < 1"
  shows "0 \<le> getrandom (Delay_init mn mxo) u"
proof -
  have "minseconds (Delay_init mn mxo) \<le> getrandom (Delay_init mn mxo) u"
    unfolding getrandom_def
    using Delay_init_ordered assms(2) by (rule uniform_lower)
  then show ?thesis using assms(1) by (simp add: Delay_init_min)
qed

theorem getrandom_nonneg_witness:
  "(0::real) \<le> 6/10 \<and> (0::real) \<le> 1/4 \<and> (1/4::real) < 1
   \<and> 0 \<le> getrandom (Delay_init (6/10) (Some (14/10))) (1/4)"
  using getrandom_nonneg [of "6/10" "1/4" "Some (14/10)"]
  by simp

theorem getrandom_negative_counterexample:
  "getrandom (Delay_init (- 1) None) (1/2) < 0"
  by (simp add: getrandom_def uniform_def)

section \<open>The invariant of a Pipe\<close>

lemma BackloggedData_init_payload: "payload (BackloggedData_init bs dl now u) = bs"
  by (cases dl) simp_all

lemma pipe_inv_init: "pipe_inv (PipeThread_init i dl ps)"
  by (simp add: pipe_inv_def PipeThread_init_def)

lemma pipe_inv_reader_recv: "pipe_inv s \<Longrightarrow> reader s = Reading \<Longrightarrow> pipe_inv (reader_recv r now u s)"
  by (cases r) (auto simp: pipe_inv_def BackloggedData_init_payload)

lemma pipe_inv_reader_join: "pipe_inv s \<Longrightarrow> pipe_inv (reader_join s)"
  by (auto simp: pipe_inv_def reader_join_def)

lemma pipe_inv_cleaner_get: "pipe_inv s \<Longrightarrow> cleaner s = Waiting \<Longrightarrow> pipe_inv (cleaner_get now s)"
  by (cases "backlog s") (auto simp: pipe_inv_def sleep_seconds_def)

lemma sleeping_unfinished:
  "pipe_inv s \<Longrightarrow> cleaner s = Sleeping d wake \<Longrightarrow> 0 < unfinished_tasks s"
proof -
  assume inv: "pipe_inv s" and c: "cleaner s = Sleeping d wake"
  have "length (dequeued s) = length (delivered s) + 1"
    using inv c by (simp add: pipe_inv_def)
  moreover have "length (dequeued s) + length (backlog s) = length (enqueued s)"
    using inv by (metis pipe_inv_def length_append length_map)
  moreover have "unfinished_tasks s + length (delivered s) = length (enqueued s)"
    using inv by (simp add: pipe_inv_def)
  ultimately show ?thesis by arith
qed

lemma pipe_inv_cleaner_send:
  "pipe_inv s \<Longrightarrow> cleaner s = Sleeping d wake \<Longrightarrow> wake \<le> t \<Longrightarrow> pipe_inv (cleaner_send r t d s)"
proof (cases r)
  case (SendCount n)
  assume inv: "pipe_inv s" and c: "cleaner s = Sleeping d wake" and t: "wake \<le> t"
  from sleeping_unfinished [OF inv c] have pos: "0 < unfinished_tasks s" .
  show ?thesis using inv c t pos SendCount
    by (auto simp: pipe_inv_def Let_def)
next
  case SendError
  assume inv: "pipe_inv s" and c: "cleaner s = Sleeping d wake"
  then show ?thesis using SendError by (auto simp: pipe_inv_def)
qed

lemma pipe_inv_step: "pipe_inv s \<Longrightarrow> pipe_inv (step e s)"
proof (cases e)
  case (ReaderRecv r now u)
  assume "pipe_inv s"
  then show ?thesis using ReaderRecv
    by (simp add: pipe_inv_reader_recv del: reader_recv.simps)
next
  case ReaderJoin
  assume "pipe_inv s"
  then show ?thesis using ReaderJoin by (simp add: pipe_inv_reader_join)
next
  case (CleanerGet now)
  assume "pipe_inv s"
  then show ?thesis using CleanerGet
    by (simp add: pipe_inv_cleaner_get del: cleaner_get.simps)
next
  case CleanerSleepError
  assume "pipe_inv s"
  then show ?thesis using CleanerSleepError
    by (auto simp: pipe_inv_def split: cleaner_phase.splits)
next
  case (CleanerSend r t)
  assume "pipe_inv s"
  then show ?thesis using CleanerSend
    by (simp add: pipe_inv_cleaner_send del: cleaner_send.simps split: cleaner_phase.splits)
qed

lemma pipe_inv_exec: "pipe_inv s \<Longrightarrow> pipe_inv (exec evs s)"
  by (induction evs arbitrary: s) (simp_all add: pipe_inv_step)


lemma cleaner_inv_prefix: "cleaner_inv c deq del \<Longrightarrow> del = take (length del) deq"
  by (cases c) simp_all

lemma pipe_inv_run: "pipe_inv (exec evs (PipeThread_init i dl ps))"
  by (rule pipe_inv_exec) (rule pipe_inv_init)

lemma delivered_prefix:
  assumes "pipe_inv s"
  shows "map snd (delivered s) = take (length (delivered s)) (map snd (enqueued s))"
proof -
  have "cleaner_inv (cleaner s) (dequeued s) (map snd (delivered s))"
    using assms by (simp add: pipe_inv_def)
  from cleaner_inv_prefix [OF this]
  have d: "map snd (delivered s) = take (length (delivered s)) (dequeued s)"
    by simp
  have len: "length (delivered s) \<le> length (dequeued s)"
    by (metis d length_map length_take min.cobounded2 min.commute)
  have "map snd (enqueued s) = dequeued s @ backlog s"
    using assms by (simp add: pipe_inv_def)
  then show ?thesis using d len by simp
qed

lemma dequeued_prefix:
  assumes "pipe_inv s"
  shows "dequeued s = take (length (dequeued s)) (map snd (enqueued s))"
proof -
  have "map snd (enqueued s) = dequeued s @ backlog s"
    using assms by (simp add: pipe_inv_def)
  then show ?thesis by simp
qed

section \<open>Properties of a Pipe\<close>

text \<open>
  Claim C2. In every run of a Pipe, whatever the clock readings and the delays drawn,
  the entries \<^verbatim>\<open>get\<close> has returned followed by the entries still queued are the
  entries put, in the order they were put; so the entries dequeued, and the entries
  sent, are an initial segment of the entries enqueued.
\<close>

theorem backlog_fifo:
  "dequeued (exec evs (PipeThread_init i dl ps)) @ backlog (exec evs (PipeThread_init i dl ps))
     = map snd (enqueued (exec evs (PipeThread_init i dl ps)))
   \<and> dequeued (exec evs (PipeThread_init i dl ps))
     = take (length (dequeued (exec evs (PipeThread_init i dl ps))))
         (map snd (enqueued (exec evs (PipeThread_init i dl ps))))
   \<and> map snd (delivered (exec evs (PipeThread_init i dl ps)))
     = take (length (delivered (exec evs (PipeThread_init i dl ps))))
         (map snd (enqueued (exec evs (PipeThread_init i dl ps))))"
proof -
  have inv: "pipe_inv (exec evs (PipeThread_init i dl ps))" by (rule pipe_inv_run)
  have "dequeued (exec evs (PipeThread_init i dl ps)) @ backlog (exec evs (PipeThread_init i dl ps))
     = map snd (enqueued (exec evs (PipeThread_init i dl ps)))"
    using inv by (simp add: pipe_inv_def)
  then show ?thesis
    using dequeued_prefix [OF inv] delivered_prefix [OF inv] by blast
qed

lemma list_all_take: "list_all P xs \<Longrightarrow> list_all P (take n xs)"
  by (auto simp: list_all_iff dest: in_set_takeD)

lemma payloads_nonempty:
  assumes "pipe_inv s"
  shows "list_all (\<lambda>d. payload d \<noteq> []) (map snd (enqueued s))"
proof -
  have "list_all (\<lambda>(t, d). payload d \<noteq> []) (enqueued s)"
    using assms by (simp add: pipe_inv_def)
  then show ?thesis by (simp add: list_all_iff split_beta)
qed

text \<open>
  Claim C10. In every run of a Pipe, every entry ever put on the backlog has a
  non-empty payload, and so has every entry still queued, held by the Sender or handed
  to \<^verbatim>\<open>send\<close>; an empty read changes neither the queue nor the record of entries
  put.
\<close>

theorem enqueued_payload_nonempty:
  "list_all (\<lambda>d. payload d \<noteq> []) (map snd (enqueued (exec evs (PipeThread_init i dl ps))))
   \<and> list_all (\<lambda>d. payload d \<noteq> []) (backlog (exec evs (PipeThread_init i dl ps)))
   \<and> list_all (\<lambda>d. payload d \<noteq> []) (dequeued (exec evs (PipeThread_init i dl ps)))
   \<and> list_all (\<lambda>d. payload d \<noteq> []) (in_flight (cleaner (exec evs (PipeThread_init i dl ps))))
   \<and> list_all (\<lambda>d. payload d \<noteq> []) (map snd (delivered (exec evs (PipeThread_init i dl ps))))
   \<and> backlog (step (ReaderRecv (RecvBytes []) now u) s) = backlog s
   \<and> enqueued (step (ReaderRecv (RecvBytes []) now u) s) = enqueued s"
proof -
  let ?s = "exec evs (PipeThread_init i dl ps)"
  have inv: "pipe_inv ?s" by (rule pipe_inv_run)
  have enq: "list_all (\<lambda>d. payload d \<noteq> []) (map snd (enqueued ?s))"
    using inv by (rule payloads_nonempty)
  have split: "map snd (enqueued ?s) = dequeued ?s @ backlog ?s"
    using inv by (simp add: pipe_inv_def)
  have bl: "list_all (\<lambda>d. payload d \<noteq> []) (backlog ?s)"
    and dq: "list_all (\<lambda>d. payload d \<noteq> []) (dequeued ?s)"
    using enq unfolding split by simp_all
  have dl: "list_all (\<lambda>d. payload d \<noteq> []) (map snd (delivered ?s))"
    using enq delivered_prefix [OF inv] list_all_take by metis
  have fl: "list_all (\<lambda>d. payload d \<noteq> []) (in_flight (cleaner ?s))"
  proof (cases "cleaner ?s")
    case (Sleeping d wake)
    then have "dequeued ?s = map snd (delivered ?s) @ [d]"
      using inv by (simp add: pipe_inv_def)
    then show ?thesis using dq Sleeping by simp
  qed simp_all
  have empty: "backlog (step (ReaderRecv (RecvBytes []) now u) s) = backlog s
      \<and> enqueued (step (ReaderRecv (RecvBytes []) now u) s) = enqueued s"
    by simp
  show ?thesis using enq bl dq fl dl empty by blast
qed

section \<open>The end of the Reader\<close>

lemma cleaner_get_frame:
  "reader (cleaner_get now s) = reader s \<and> pipes (cleaner_get now s) = pipes s
   \<and> delay (cleaner_get now s) = delay s \<and> enqueued (cleaner_get now s) = enqueued s"
  by (simp split: list.splits)

lemma cleaner_send_frame:
  "reader (cleaner_send r t d s) = reader s \<and> pipes (cleaner_send r t d s) = pipes s
   \<and> delay (cleaner_send r t d s) = delay s \<and> enqueued (cleaner_send r t d s) = enqueued s"
  by (cases r) (simp_all add: Let_def)

lemma reader_recv_frame:
  "pipes (reader_recv r now u s) = pipes s \<and> delay (reader_recv r now u s) = delay s"
  by (cases r) simp_all

lemma reader_recv_phase:
  "reader s = Reading \<Longrightarrow>
     reader (reader_recv r now u s) = (if stops_reader (ReaderRecv r now u) then Joining else Reading)"
  by (cases r) simp_all

lemma reader_join_frame:
  "delay (reader_join s) = delay s \<and> enqueued (reader_join s) = enqueued s"
  by (simp add: reader_join_def)

lemma reader_step_Reading:
  "reader s = Reading \<Longrightarrow> reader (step e s) = (if stops_reader e then Joining else Reading)"
  by (cases e)
    (simp_all add: cleaner_get_frame cleaner_send_frame reader_recv_phase
      del: cleaner_get.simps cleaner_send.simps reader_recv.simps stops_reader.simps(1,2)
      split: cleaner_phase.splits)

lemma reader_step_Joining:
  "reader s = Joining \<Longrightarrow> reader (step e s) = Finished \<Longrightarrow>
     e = ReaderJoin \<and> unfinished_tasks s = 0"
  by (cases e)
    (simp_all add: cleaner_get_frame cleaner_send_frame reader_join_def
      del: cleaner_get.simps cleaner_send.simps
      split: cleaner_phase.splits if_splits)

lemma pipes_step: "pipes (step e s) = pipes s \<or> reader (step e s) = Finished"
  by (cases e)
    (simp_all add: cleaner_get_frame cleaner_send_frame reader_recv_frame reader_join_def
      del: cleaner_get.simps cleaner_send.simps reader_recv.simps
      split: cleaner_phase.splits)

lemma Finished_step: "reader s = Finished \<Longrightarrow> reader (step e s) = Finished"
  by (cases e)
    (simp_all add: cleaner_get_frame cleaner_send_frame
      del: cleaner_get.simps cleaner_send.simps
      split: cleaner_phase.splits)

lemma Finished_exec: "reader s = Finished \<Longrightarrow> reader (exec evs s) = Finished"
  by (induction evs arbitrary: s) (simp_all add: Finished_step)

lemma pipes_exec: "pipes (exec evs s) = pipes s \<or> reader (exec evs s) = Finished"
proof (induction evs arbitrary: s)
  case Nil
  show ?case by simp
next
  case (Cons e es)
  show ?case
  proof (cases "reader (step e s) = Finished")
    case True
    then show ?thesis by (simp add: Finished_exec)
  next
    case False
    then have "pipes (step e s) = pipes s" using pipes_step [of e s] by simp
    then show ?thesis using Cons.IH [of "step e s"] by simp
  qed
qed

lemma Finished_drained:
  assumes inv: "pipe_inv s" and fin: "reader s = Finished"
  shows "unfinished_tasks s = 0 \<and> backlog s = [] \<and> in_flight (cleaner s) = []
    \<and> map snd (delivered s) = map snd (enqueued s)"
proof -
  have u: "unfinished_tasks s = 0" using inv fin by (simp add: pipe_inv_def)
  have cnt: "length (delivered s) = length (enqueued s)"
    using inv u by (simp add: pipe_inv_def)
  have all: "map snd (delivered s) = map snd (enqueued s)"
    using delivered_prefix [OF inv] cnt by simp
  have split: "dequeued s @ backlog s = map snd (enqueued s)"
    using inv by (simp add: pipe_inv_def)
  have "length (dequeued s) + length (backlog s) = length (enqueued s)"
    using split by (metis length_append length_map)
  moreover have ci: "cleaner_inv (cleaner s) (dequeued s) (map snd (delivered s))"
    using inv by (simp add: pipe_inv_def)
  have "length (delivered s) \<le> length (dequeued s)"
    using cleaner_inv_prefix [OF ci]
    by (metis length_map length_take min.cobounded2 min.commute)
  ultimately have "length (backlog s) = 0" and dq: "length (dequeued s) = length (delivered s)"
    using cnt by arith+
  then have bl: "backlog s = []" by simp
  have fl: "in_flight (cleaner s) = []"
    using ci dq by (cases "cleaner s") simp_all
  show ?thesis using u bl fl all by simp
qed

text \<open>
  Claim C6. While the Reader is in its loop, a step ends the loop exactly when it is a
  \<^verbatim>\<open>recv\<close> that returned no bytes or failed, and the Reader then waits in
  \<^verbatim>\<open>join\<close>; it leaves \<^verbatim>\<open>join\<close> only by a step taken with \<open>unfinished_tasks = 0\<close>. In
  every run, once \<^verbatim>\<open>PipeThread.pipes\<close> has changed, or the Reader has finished, the
  queue is empty, the Sender holds no entry and every entry put has been sent.
\<close>

theorem reader_stops_then_drains:
  "(reader s = Reading \<longrightarrow>
      reader (step e s) = (if stops_reader e then Joining else Reading))
   \<and> (reader s = Joining \<and> reader (step e s) = Finished \<longrightarrow>
      e = ReaderJoin \<and> unfinished_tasks s = 0)
   \<and> (pipes (exec evs (PipeThread_init i dl ps)) \<noteq> pipes (PipeThread_init i dl ps)
       \<or> reader (exec evs (PipeThread_init i dl ps)) = Finished \<longrightarrow>
      reader (exec evs (PipeThread_init i dl ps)) = Finished
      \<and> unfinished_tasks (exec evs (PipeThread_init i dl ps)) = 0
      \<and> backlog (exec evs (PipeThread_init i dl ps)) = []
      \<and> in_flight (cleaner (exec evs (PipeThread_init i dl ps))) = []
      \<and> map snd (delivered (exec evs (PipeThread_init i dl ps)))
          = map snd (enqueued (exec evs (PipeThread_init i dl ps))))"
proof -
  let ?s0 = "PipeThread_init i dl ps"
  have a: "reader s = Reading \<longrightarrow>
      reader (step e s) = (if stops_reader e then Joining else Reading)"
    using reader_step_Reading by blast
  have b: "reader s = Joining \<and> reader (step e s) = Finished \<longrightarrow>
      e = ReaderJoin \<and> unfinished_tasks s = 0"
    using reader_step_Joining by blast
  have c: "reader (exec evs ?s0) = Finished
      \<and> unfinished_tasks (exec evs ?s0) = 0
      \<and> backlog (exec evs ?s0) = []
      \<and> in_flight (cleaner (exec evs ?s0)) = []
      \<and> map snd (delivered (exec evs ?s0)) = map snd (enqueued (exec evs ?s0))"
    if "pipes (exec evs ?s0) \<noteq> pipes ?s0 \<or> reader (exec evs ?s0) = Finished"
  proof -
    have fin: "reader (exec evs ?s0) = Finished"
      using that pipes_exec [of evs ?s0] by blast
    show ?thesis using fin Finished_drained [OF pipe_inv_run fin] by simp
  qed
  show ?thesis using a b c by blast
qed

theorem reader_stops_then_drains_witness:
  "reader (PipeThread_init 7 None []) = Reading
   \<and> reader (step (ReaderRecv (RecvBytes []) 0 0) (PipeThread_init 7 None [])) = Joining
   \<and> reader (step (ReaderRecv (RecvBytes [1, 2]) 0 0) (PipeThread_init 7 None [])) = Reading
   \<and> pipes (exec [ReaderRecv (RecvBytes [1, 2]) 0 0, CleanerGet 1, ReaderRecv RecvError 2 0,
        CleanerSend (SendCount 2) 3, ReaderJoin] (PipeThread_init 7 None []))
       \<noteq> pipes (PipeThread_init 7 None [])
   \<and> backlog (exec [ReaderRecv (RecvBytes [1, 2]) 0 0, CleanerGet 1, ReaderRecv RecvError 2 0,
        CleanerSend (SendCount 2) 3, ReaderJoin] (PipeThread_init 7 None [])) = []
   \<and> map snd (delivered (exec [ReaderRecv (RecvBytes [1, 2]) 0 0, CleanerGet 1,
        ReaderRecv RecvError 2 0, CleanerSend (SendCount 2) 3, ReaderJoin]
        (PipeThread_init 7 None [])))
      = [\<lparr>waituntil = 0, payload = [1, 2]\<rparr>]"
  using reader_stops_then_drains [of "PipeThread_init 7 None []" "ReaderRecv (RecvBytes []) 0 0"
      "[ReaderRecv (RecvBytes [1, 2]) 0 0, CleanerGet 1, ReaderRecv RecvError 2 0,
        CleanerSend (SendCount 2) 3, ReaderJoin]" 7 None "[]"]
    reader_stops_then_drains [of "PipeThread_init 7 None []" "ReaderRecv (RecvBytes [1, 2]) 0 0"
      "[]" 7 None "[]"]
  by (simp add: PipeThread_init_def reader_join_def sleep_seconds_def)

section \<open>Timing of a fixed delay\<close>

lemma delay_step: "delay (step e s) = delay s"
  by (cases e)
    (simp_all add: cleaner_get_frame cleaner_send_frame reader_recv_frame reader_join_frame
      del: cleaner_get.simps cleaner_send.simps reader_recv.simps
      split: cleaner_phase.splits)

lemma fixed_delay_waituntil:
  "waituntil (BackloggedData_init bs (Some (Delay_init d (Some d))) now u) = now + d"
  by (simp add: getrandom_def uniform_def)

lemma reader_recv_fixed:
  assumes "delay s = Some (Delay_init d (Some d))"
    and "list_all (\<lambda>(t, x). waituntil x = t + d) (enqueued s)"
  shows "list_all (\<lambda>(t, x). waituntil x = t + d) (enqueued (reader_recv r now u s))"
proof (cases r)
  case (RecvBytes bs)
  show ?thesis
    using assms(2) fixed_delay_waituntil [of bs d now u]
    unfolding RecvBytes by (simp add: assms(1) del: BackloggedData_init.simps Delay_init.simps)
next
  case RecvError
  then show ?thesis using assms(2) by simp
qed

lemma step_fixed:
  assumes "delay s = Some (Delay_init d (Some d))"
    and "list_all (\<lambda>(t, x). waituntil x = t + d) (enqueued s)"
  shows "list_all (\<lambda>(t, x). waituntil x = t + d) (enqueued (step e s))"
  using assms
  by (cases e)
    (simp_all add: cleaner_get_frame cleaner_send_frame reader_recv_fixed reader_join_frame
      del: cleaner_get.simps cleaner_send.simps reader_recv.simps Delay_init.simps
      split: cleaner_phase.splits)

lemma exec_fixed:
  assumes "delay s = Some (Delay_init d (Some d))"
    and "list_all (\<lambda>(t, x). waituntil x = t + d) (enqueued s)"
  shows "list_all (\<lambda>(t, x). waituntil x = t + d) (enqueued (exec evs s))"
  using assms
proof (induction evs arbitrary: s)
  case Nil
  then show ?case by simp
next
  case (Cons e es)
  have "delay (step e s) = Some (Delay_init d (Some d))"
    using Cons.prems(1) by (simp only: delay_step)
  moreover have "list_all (\<lambda>(t, x). waituntil x = t + d) (enqueued (step e s))"
    using Cons.prems by (rule step_fixed)
  ultimately show ?case using Cons.IH [of "step e s"] by simp
qed

text \<open>
  Claim C3. With a Delay built from \<open>min = max = d\<close>, in every run of a Pipe the
  \<open>k\<close>-th entry sent is the \<open>k\<close>-th entry put, its \<^verbatim>\<open>waituntil\<close> is the clock reading
  of its constructor plus \<open>d\<close>, and its \<^verbatim>\<open>send\<close> is called no earlier than that: the
  Sender asks to sleep \<open>max(0, waituntil - now)\<close>, which ends no earlier than
  \<^verbatim>\<open>waituntil\<close>, before it sends.
\<close>

theorem fixed_delay_lower_bound:
  assumes "k < length (delivered (exec evs (PipeThread_init i (Some (Delay_init d (Some d))) ps)))"
  shows "snd (delivered (exec evs (PipeThread_init i (Some (Delay_init d (Some d))) ps)) ! k)
      = snd (enqueued (exec evs (PipeThread_init i (Some (Delay_init d (Some d))) ps)) ! k)
    \<and> waituntil (snd (enqueued (exec evs (PipeThread_init i (Some (Delay_init d (Some d))) ps)) ! k))
      = fst (enqueued (exec evs (PipeThread_init i (Some (Delay_init d (Some d))) ps)) ! k) + d
    \<and> fst (enqueued (exec evs (PipeThread_init i (Some (Delay_init d (Some d))) ps)) ! k) + d
      \<le> fst (delivered (exec evs (PipeThread_init i (Some (Delay_init d (Some d))) ps)) ! k)
    \<and> sleep_seconds x now = max 0 (waituntil x - now)
    \<and> waituntil x \<le> now + sleep_seconds x now"
proof -
  let ?s0 = "PipeThread_init i (Some (Delay_init d (Some d))) ps"
  let ?s = "exec evs ?s0"
  have inv: "pipe_inv ?s" by (rule pipe_inv_run)
  have pre: "map snd (delivered ?s) = take (length (delivered ?s)) (map snd (enqueued ?s))"
    using inv by (rule delivered_prefix)
  have "length (delivered ?s) \<le> length (enqueued ?s)"
    using pre by (metis length_map length_take min.cobounded2 min.commute)
  then have k_enq: "k < length (enqueued ?s)" using assms by simp
  have "map snd (delivered ?s) ! k = take (length (delivered ?s)) (map snd (enqueued ?s)) ! k"
    using pre by simp
  then have same: "snd (delivered ?s ! k) = snd (enqueued ?s ! k)"
    using assms k_enq by simp
  have "list_all (\<lambda>(t, x). waituntil x = t + d) (enqueued ?s)"
    by (rule exec_fixed) (simp_all add: PipeThread_init_def)
  then have "case enqueued ?s ! k of (t, x) \<Rightarrow> waituntil x = t + d"
    using k_enq by (simp add: list_all_length)
  then have wu: "waituntil (snd (enqueued ?s ! k)) = fst (enqueued ?s ! k) + d"
    by (simp add: split_beta)
  have "list_all (\<lambda>(t, x). waituntil x \<le> t) (delivered ?s)"
    using inv by (simp add: pipe_inv_def)
  then have "case delivered ?s ! k of (t, x) \<Rightarrow> waituntil x \<le> t"
    using assms by (simp add: list_all_length)
  then have "waituntil (snd (delivered ?s ! k)) \<le> fst (delivered ?s ! k)"
    by (simp add: split_beta)
  then have late: "fst (enqueued ?s ! k) + d \<le> fst (delivered ?s ! k)"
    using same wu by simp
  have sl: "sleep_seconds x now = max 0 (waituntil x - now)
      \<and> waituntil x \<le> now + sleep_seconds x now"
    by (simp add: sleep_seconds_def)
  show ?thesis using same wu late sl by blast
qed

theorem fixed_delay_lower_bound_witness:
  "0 < length (delivered (exec [ReaderRecv (RecvBytes [1, 2]) 10 (1/2), CleanerGet 11,
        CleanerSend (SendCount 2) 12, CleanerSend (SendCount 2) 13]
        (PipeThread_init 7 (Some (Delay_init 3 (Some 3))) [])))
   \<and> fst (enqueued (exec [ReaderRecv (RecvBytes [1, 2]) 10 (1/2), CleanerGet 11,
        CleanerSend (SendCount 2) 12, CleanerSend (SendCount 2) 13]
        (PipeThread_init 7 (Some (Delay_init 3 (Some 3))) [])) ! 0) = 10
   \<and> fst (delivered (exec [ReaderRecv (RecvBytes [1, 2]) 10 (1/2), CleanerGet 11,
        CleanerSend (SendCount 2) 12, CleanerSend (SendCount 2) 13]
        (PipeThread_init 7 (Some (Delay_init 3 (Some 3))) [])) ! 0) = 13"
  using fixed_delay_lower_bound [of 0 "[ReaderRecv (RecvBytes [1, 2]) 10 (1/2), CleanerGet 11,
        CleanerSend (SendCount 2) 12, CleanerSend (SendCount 2) 13]" 7 3 "[]"]
  by (simp add: PipeThread_init_def sleep_seconds_def getrandom_def uniform_def)

section \<open>Fidelity of the relay\<close>

lemma relay_inv_init: "relay_inv (PipeThread_init i dl ps)"
  by (simp add: relay_inv_def PipeThread_init_def)

lemma relay_inv_reader_recv: "relay_inv s \<Longrightarrow> relay_inv (reader_recv r now u s)"
  by (cases r; cases "delay s") (auto simp: relay_inv_def)

lemma relay_inv_reader_join: "relay_inv s \<Longrightarrow> relay_inv (reader_join s)"
  by (simp add: relay_inv_def reader_join_def)

lemma relay_inv_cleaner_get:
  "relay_inv s \<Longrightarrow> cleaner s = Waiting \<Longrightarrow> relay_inv (cleaner_get now s)"
  by (cases "backlog s") (auto simp: relay_inv_def)

lemma relay_inv_cleaner_send:
  assumes "relay_inv s" and "cleaner s = Sleeping d wake" and "0 < unfinished_tasks s"
    and "length (payload d) \<le> n"
  shows "relay_inv (cleaner_send (SendCount n) t d s)"
  using assms by (auto simp: relay_inv_def Let_def)

lemma relay_inv_step:
  assumes inv: "pipe_inv s" and rel: "relay_inv s" and ok: "sender_survives e s"
  shows "relay_inv (step e s)"
proof (cases e)
  case (ReaderRecv r now u)
  then show ?thesis using rel
    by (simp add: relay_inv_reader_recv del: reader_recv.simps)
next
  case ReaderJoin
  then show ?thesis using rel by (simp add: relay_inv_reader_join)
next
  case (CleanerGet now)
  then show ?thesis using rel
    by (simp add: relay_inv_cleaner_get del: cleaner_get.simps)
next
  case CleanerSleepError
  then show ?thesis using ok by simp
next
  case (CleanerSend r t)
  show ?thesis
  proof (cases "cleaner s")
    case (Sleeping d wake)
    from sleeping_unfinished [OF inv Sleeping] have pos: "0 < unfinished_tasks s" .
    show ?thesis
    proof (cases r)
      case (SendCount n)
      then have "length (payload d) \<le> n"
        using ok CleanerSend Sleeping by simp
      from relay_inv_cleaner_send [OF rel Sleeping pos this]
      show ?thesis using rel CleanerSend Sleeping SendCount
        by (simp del: cleaner_send.simps)
    next
      case SendError
      then show ?thesis using ok CleanerSend by simp
    qed
  qed (use rel CleanerSend in simp_all)
qed

lemma relay_inv_exec:
  "pipe_inv s \<Longrightarrow> relay_inv s \<Longrightarrow> sender_survives_run evs s \<Longrightarrow> relay_inv (exec evs s)"
proof (induction evs arbitrary: s)
  case Nil
  then show ?case by simp
next
  case (Cons e es)
  have "pipe_inv (step e s)" using Cons.prems(1) by (rule pipe_inv_step)
  moreover have "relay_inv (step e s)"
    using Cons.prems by (simp add: relay_inv_step)
  moreover have "sender_survives_run es (step e s)" using Cons.prems(3) by simp
  ultimately show ?case using Cons.IH [of "step e s"] by simp
qed

lemma Dead_step: "cleaner s = Dead \<Longrightarrow>
    cleaner (step e s) = Dead \<and> sink_received (step e s) = sink_received s"
  by (cases e; cases "case e of ReaderRecv r now u \<Rightarrow> r | _ \<Rightarrow> RecvError")
    (simp_all add: reader_join_def)

lemma Dead_exec: "cleaner s = Dead \<Longrightarrow>
    cleaner (exec evs s) = Dead \<and> sink_received (exec evs s) = sink_received s"
proof (induction evs arbitrary: s)
  case Nil
  then show ?case by simp
next
  case (Cons e es)
  from Dead_step [OF Cons.prems, of e] Cons.IH [of "step e s"]
  show ?case by simp
qed

text \<open>
  A Sender whose \<^verbatim>\<open>time.sleep\<close> raises is gone as well: with a Delay of \<open>1e10\<close>
  seconds the byte read is taken off the queue and never sent.
\<close>

lemma sleep_error_loses_bytes:
  "source_bytes (exec [ReaderRecv (RecvBytes [1]) 0 0, CleanerGet 0, CleanerSleepError,
      CleanerSend (SendCount 1) 10000000000, ReaderRecv (RecvBytes []) 1 0, ReaderJoin]
      (PipeThread_init 7 (Some (Delay_init 10000000000 None)) [])) = [1]
   \<and> sink_received (exec [ReaderRecv (RecvBytes [1]) 0 0, CleanerGet 0, CleanerSleepError,
      CleanerSend (SendCount 1) 10000000000, ReaderRecv (RecvBytes []) 1 0, ReaderJoin]
      (PipeThread_init 7 (Some (Delay_init 10000000000 None)) [])) = []
   \<and> backlog (exec [ReaderRecv (RecvBytes [1]) 0 0, CleanerGet 0, CleanerSleepError,
      CleanerSend (SendCount 1) 10000000000, ReaderRecv (RecvBytes []) 1 0, ReaderJoin]
      (PipeThread_init 7 (Some (Delay_init 10000000000 None)) [])) = []
   \<and> cleaner (exec [ReaderRecv (RecvBytes [1]) 0 0, CleanerGet 0, CleanerSleepError,
      CleanerSend (SendCount 1) 10000000000, ReaderRecv (RecvBytes []) 1 0, ReaderJoin]
      (PipeThread_init 7 (Some (Delay_init 10000000000 None)) [])) = Dead"
  by (simp add: PipeThread_init_def sleep_seconds_def reader_join_def getrandom_def uniform_def)

text \<open>
  Claim C1, as amended. In every run of a Pipe in which no \<^verbatim>\<open>time.sleep\<close> call of
  the Sender raises and each \<^verbatim>\<open>send\<close> made returns having accepted its whole payload,
  the bytes the sink has accepted, followed by the payloads of the entry the Sender
  holds and of the entries still queued, are exactly the bytes read from the source, in
  order; the bytes accepted are the payloads of the entries sent, whole; and when
  nothing is queued or held the two byte sequences are equal.
\<close>

theorem relay_fidelity:
  assumes "sender_survives_run evs (PipeThread_init i dl ps)"
  shows "sink_received (exec evs (PipeThread_init i dl ps))
        @ concat (map payload (in_flight (cleaner (exec evs (PipeThread_init i dl ps)))
                               @ backlog (exec evs (PipeThread_init i dl ps))))
      = source_bytes (exec evs (PipeThread_init i dl ps))
    \<and> sink_received (exec evs (PipeThread_init i dl ps))
      = concat (map (\<lambda>(t, d). payload d) (delivered (exec evs (PipeThread_init i dl ps))))
    \<and> (backlog (exec evs (PipeThread_init i dl ps)) = []
       \<and> cleaner (exec evs (PipeThread_init i dl ps)) = Waiting
       \<longrightarrow> sink_received (exec evs (PipeThread_init i dl ps))
           = source_bytes (exec evs (PipeThread_init i dl ps)))"
proof -
  let ?s = "exec evs (PipeThread_init i dl ps)"
  have "relay_inv ?s"
    using pipe_inv_init relay_inv_init assms by (rule relay_inv_exec)
  then have a: "sink_received ?s @ concat (map payload (in_flight (cleaner ?s) @ backlog ?s))
      = source_bytes ?s"
    and b: "sink_received ?s = concat (map (\<lambda>(t, d). payload d) (delivered ?s))"
    unfolding relay_inv_def by simp_all
  have c: "sink_received ?s = source_bytes ?s" if "backlog ?s = [] \<and> cleaner ?s = Waiting"
    using a that by simp
  show ?thesis using a b c by blast
qed

theorem relay_fidelity_witness:
  "sender_survives_run [ReaderRecv (RecvBytes [1, 2]) 0 0, ReaderRecv (RecvBytes [3]) 1 0,
      CleanerGet 1, CleanerSend (SendCount 2) 2, CleanerGet 2, ReaderRecv (RecvBytes []) 3 0,
      CleanerSend (SendCount 1) 3, ReaderJoin] (PipeThread_init 7 None [])
   \<and> backlog (exec [ReaderRecv (RecvBytes [1, 2]) 0 0, ReaderRecv (RecvBytes [3]) 1 0,
      CleanerGet 1, CleanerSend (SendCount 2) 2, CleanerGet 2, ReaderRecv (RecvBytes []) 3 0,
      CleanerSend (SendCount 1) 3, ReaderJoin] (PipeThread_init 7 None [])) = []
   \<and> cleaner (exec [ReaderRecv (RecvBytes [1, 2]) 0 0, ReaderRecv (RecvBytes [3]) 1 0,
      CleanerGet 1, CleanerSend (SendCount 2) 2, CleanerGet 2, ReaderRecv (RecvBytes []) 3 0,
      CleanerSend (SendCount 1) 3, ReaderJoin] (PipeThread_init 7 None [])) = Waiting
   \<and> source_bytes (exec [ReaderRecv (RecvBytes [1, 2]) 0 0, ReaderRecv (RecvBytes [3]) 1 0,
      CleanerGet 1, CleanerSend (SendCount 2) 2, CleanerGet 2, ReaderRecv (RecvBytes []) 3 0,
      CleanerSend (SendCount 1) 3, ReaderJoin] (PipeThread_init 7 None [])) = [1, 2, 3]
   \<and> sink_received (exec [ReaderRecv (RecvBytes [1, 2]) 0 0, ReaderRecv (RecvBytes [3]) 1 0,
      CleanerGet 1, CleanerSend (SendCount 2) 2, CleanerGet 2, ReaderRecv (RecvBytes []) 3 0,
      CleanerSend (SendCount 1) 3, ReaderJoin] (PipeThread_init 7 None [])) = [1, 2, 3]"
  using relay_fidelity [of "[ReaderRecv (RecvBytes [1, 2]) 0 0, ReaderRecv (RecvBytes [3]) 1 0,
      CleanerGet 1, CleanerSend (SendCount 2) 2, CleanerGet 2, ReaderRecv (RecvBytes []) 3 0,
      CleanerSend (SendCount 1) 3, ReaderJoin]" 7 None "[]"]
  by (simp add: PipeThread_init_def sleep_seconds_def reader_join_def)

theorem relay_send_error_counterexample:
  "source_bytes (exec [ReaderRecv (RecvBytes [1, 2]) 0 0, ReaderRecv (RecvBytes [3]) 1 0,
      CleanerGet 1, CleanerSend SendError 2, CleanerGet 2, ReaderRecv (RecvBytes []) 3 0,
      CleanerSend (SendCount 1) 3, ReaderJoin] (PipeThread_init 7 None [])) = [1, 2, 3]
   \<and> sink_received (exec [ReaderRecv (RecvBytes [1, 2]) 0 0, ReaderRecv (RecvBytes [3]) 1 0,
      CleanerGet 1, CleanerSend SendError 2, CleanerGet 2, ReaderRecv (RecvBytes []) 3 0,
      CleanerSend (SendCount 1) 3, ReaderJoin] (PipeThread_init 7 None [])) = []
   \<and> cleaner (exec [ReaderRecv (RecvBytes [1, 2]) 0 0, ReaderRecv (RecvBytes [3]) 1 0,
      CleanerGet 1, CleanerSend SendError 2, CleanerGet 2, ReaderRecv (RecvBytes []) 3 0,
      CleanerSend (SendCount 1) 3, ReaderJoin] (PipeThread_init 7 None [])) = Dead
   \<and> reader (exec [ReaderRecv (RecvBytes [1, 2]) 0 0, ReaderRecv (RecvBytes [3]) 1 0,
      CleanerGet 1, CleanerSend SendError 2, CleanerGet 2, ReaderRecv (RecvBytes []) 3 0,
      CleanerSend (SendCount 1) 3, ReaderJoin] (PipeThread_init 7 None [])) = Joining"
  by (simp add: PipeThread_init_def sleep_seconds_def reader_join_def)

section \<open>The accept loop\<close>

lemma serves_pair_cases:
  assumes "serves_pair e"
  obtains l r where "e = Accepted l (Connected r)"
  using assms by (cases e rule: serves_pair.cases) simp_all

lemma LagProxy_run_served:
  "list_all serves_pair pre \<Longrightarrow>
     LagProxy_run (pre @ evs) st = LagProxy_run evs (snd (LagProxy_run pre st))"
proof (induction pre arbitrary: st)
  case Nil
  show ?case by simp
next
  case (Cons e pre)
  from Cons.prems have "serves_pair e" by simp
  then obtain l r where e: "e = Accepted l (Connected r)" by (rule serves_pair_cases)
  from Cons.prems have "list_all serves_pair pre" by simp
  from Cons.IH [OF this] show ?case by (simp add: e)
qed

text \<open>
  Claim C4, as amended. When the outbound \<^verbatim>\<open>connect\<close> of a pair fails after a
  series of pairs that were served, no PipeThread is created for the failing pair, but
  the failure is not contained to it: the exception leaves \<^verbatim>\<open>run\<close>, so the accept loop
  ends there and no connection arriving later is accepted, and it leaves \<^verbatim>\<open>main\<close>
  too, so the process exits and no PipeThread of an earlier pair can run any longer.
\<close>

theorem connect_failure_leaves_run:
  assumes "list_all serves_pair pre"
  shows "LagProxy_run (pre @ Accepted l ConnectError # post) st
      = (Raised, (snd (LagProxy_run pre st))
                   \<lparr>sessions := sessions (snd (LagProxy_run pre st)) @ [l]\<rparr>)
    \<and> started (snd (LagProxy_run (pre @ Accepted l ConnectError # post) st))
      = started (snd (LagProxy_run pre st))
    \<and> can_run (LagProxy_run (pre @ Accepted l ConnectError # post) st) = []"
  using LagProxy_run_served [OF assms, of "Accepted l ConnectError # post" st]
  by simp

theorem connect_failure_leaves_run_witness:
  "list_all serves_pair [Accepted 1 (Connected 2)]
   \<and> LagProxy_run ([Accepted 1 (Connected 2)] @ Accepted 3 ConnectError # [Accepted 4 (Connected 5)])
        \<lparr>sessions = [], started = []\<rparr>
      = (Raised, \<lparr>sessions = [1, 3], started = [(1, 2), (2, 1)]\<rparr>)
   \<and> can_run (LagProxy_run
        ([Accepted 1 (Connected 2)] @ Accepted 3 ConnectError # [Accepted 4 (Connected 5)])
        \<lparr>sessions = [], started = []\<rparr>) = []"
  using connect_failure_leaves_run [of "[Accepted 1 (Connected 2)]" 3 "[Accepted 4 (Connected 5)]"
      "\<lparr>sessions = [], started = []\<rparr>"]
  by simp

theorem connect_failure_counterexample:
  "LagProxy_run [Accepted 1 ConnectError, Accepted 2 (Connected 3)] \<lparr>sessions = [], started = []\<rparr>
     = (Raised, \<lparr>sessions = [1], started = []\<rparr>)
   \<and> can_run (LagProxy_run [Accepted 1 (Connected 2)] \<lparr>sessions = [], started = []\<rparr>)
     = [(1, 2), (2, 1)]
   \<and> LagProxy_run [Accepted 1 (Connected 2), Accepted 3 ConnectError, Accepted 4 (Connected 5)]
        \<lparr>sessions = [], started = []\<rparr>
     = (Raised, \<lparr>sessions = [1, 3], started = [(1, 2), (2, 1)]\<rparr>)
   \<and> can_run (LagProxy_run
        [Accepted 1 (Connected 2), Accepted 3 ConnectError, Accepted 4 (Connected 5)]
        \<lparr>sessions = [], started = []\<rparr>) = []"
  by simp

section \<open>The quiet flag\<close>

lemma strip_q_local: "''-q'' \<in> set args \<Longrightarrow> fst (strip_q loc args) = Some False"
proof (induction loc args rule: strip_q.induct)
  case (1 loc args)
  show ?case
  proof (cases "''-q'' \<in> set (remove1 ''-q'' args)")
    case True
    from "1.IH" [OF "1.prems" True] show ?thesis
      using "1.prems" by (subst strip_q.simps) simp
  next
    case False
    then have "strip_q (Some False) (remove1 ''-q'' args) = (Some False, remove1 ''-q'' args)"
      by (subst strip_q.simps) simp
    then show ?thesis using "1.prems" by (subst strip_q.simps) simp
  qed
qed

lemma main_startup_LOGGING:
  "LOGGING (main_startup pint pfloat ct fmt cmd argv g) = LOGGING g"
  by (simp add: main_startup_def usage_def log_out_def split: option.splits)

text \<open>
  Claim C9 fails on the code. With \<^verbatim>\<open>-q\<close> among the arguments the loop sets the
  local \<^verbatim>\<open>LOGGING\<close> of \<^verbatim>\<open>main\<close> to \<^verbatim>\<open>False\<close>; the module's \<^verbatim>\<open>LOGGING\<close> stays
  \<^verbatim>\<open>True\<close>, and when the remaining arguments parse, the \<^verbatim>\<open>log\<close> call of
  \<^verbatim>\<open>LagProxy.__init__\<close> prints its line.
\<close>

theorem quiet_flag_still_logs:
  assumes "''-q'' \<in> set argv"
    and "main_parse pint pfloat (snd (strip_q None argv)) = Some cfg"
  shows "fst (strip_q None argv) = Some False
    \<and> LOGGING (main_startup pint pfloat ct fmt cmd argv module_init) = True
    \<and> stdout (main_startup pint pfloat ct fmt cmd argv module_init) = [ct @ '':'' @ fmt cfg]"
proof -
  have "LOGGING (main_startup pint pfloat ct fmt cmd argv module_init) = True"
    by (simp add: main_startup_LOGGING module_init_def)
  moreover have "stdout (main_startup pint pfloat ct fmt cmd argv module_init)
      = [ct @ '':'' @ fmt cfg]"
    using assms(2) by (simp add: main_startup_def log_out_def module_init_def)
  ultimately show ?thesis using strip_q_local [OF assms(1)] by simp
qed

theorem quiet_flag_still_logs_witness:
  "''-q'' \<in> set [''-q'', ''8080'', ''localhost'', ''80'']
   \<and> snd (strip_q None [''-q'', ''8080'', ''localhost'', ''80'']) = [''8080'', ''localhost'', ''80'']
   \<and> stdout (main_startup
        (\<lambda>s. if s = ''8080'' then Some 8080 else if s = ''80'' then Some 80 else None)
        (\<lambda>s. None) ''Wed Nov  4 10:00:00 2026'' (\<lambda>cfg. ''Redirecting'') ''lagproxy.py''
        [''-q'', ''8080'', ''localhost'', ''80''] module_init)
      = [''Wed Nov  4 10:00:00 2026:Redirecting'']"
proof -
  have q: "strip_q None [''-q'', ''8080'', ''localhost'', ''80'']
      = (Some False, [''8080'', ''localhost'', ''80''])"
    by (simp add: strip_q.simps)
  have p: "main_parse (\<lambda>s. if s = ''8080'' then Some 8080 else if s = ''80'' then Some 80 else None)
      (\<lambda>s. None) (snd (strip_q None [''-q'', ''8080'', ''localhost'', ''80'']))
      = Some (8080, ''localhost'', 80, None)"
    by (simp add: q main_parse_def)
  have m: "''-q'' \<in> set [''-q'', ''8080'', ''localhost'', ''80'']" by simp
  from quiet_flag_still_logs [OF m p, of "''Wed Nov  4 10:00:00 2026''" "\<lambda>cfg. ''Redirecting''"
      "''lagproxy.py''"]
  show ?thesis using q by simp
qed

end
